theory Spec2Isabelle
  imports Main
begin

section \<open>The storage the logger writes to\<close>

text \<open>
  \<^verbatim>\<open>core/sd_logger.py\<close> reaches the SD card through three calls of the runtime only:
  \<^verbatim>\<open>os.stat(path)\<close>, \<open>open(path, mode="w")\<close> and \<open>open(path, mode="a")\<close>, each
  followed by one \<^verbatim>\<open>file.write\<close> inside a \<^verbatim>\<open>with\<close> block. The filesystem is therefore
  a value that every operation takes and returns:
  \<^item> \<open>files\<close> maps the path of each regular file to its content;
  \<^item> \<open>dirs\<close> holds the paths that are directories (a mounted card is one);
  \<^item> \<open>faulty\<close> holds the paths on which opening for writing raises \<^verbatim>\<open>OSError\<close>
    (card removed, write protected, full): the device is unreliable, and the logger
    catches nothing around its writes.
\<close>

record filesystem =
  files :: "string \<rightharpoonup> string"
  dirs :: "string set"
  faulty :: "string set"

datatype error = SDNotMountedError | InvalideRecordError | OSError

datatype open_mode = ModeW | ModeA

text \<open>\<^verbatim>\<open>os.stat(path)\<close>: \<open>True\<close> when it returns, \<open>False\<close> when it raises \<^verbatim>\<open>OSError\<close>.\<close>

definition os_stat :: "filesystem \<Rightarrow> string \<Rightarrow> bool" where
  "os_stat fs p \<longleftrightarrow> p \<in> dom (files fs) \<or> p \<in> dirs fs"

definition content :: "filesystem \<Rightarrow> string \<Rightarrow> string" where
  "content fs p = (case files fs p of None \<Rightarrow> [] | Some c \<Rightarrow> c)"

text \<open>
  \<^verbatim>\<open>with open(path, mode=m, encoding="utf-8") as file: file.write(data)\<close>.
  \<open>None\<close> is the \<^verbatim>\<open>OSError\<close>; a directory cannot be opened for writing. Mode \<^verbatim>\<open>"w"\<close>
  creates or truncates, mode \<^verbatim>\<open>"a"\<close> creates or keeps what is there and writes at the end.
  The failure modelled is the open raising, which leaves the card as it was. A
  \<^verbatim>\<open>file.write\<close> that raises after a successful open (a file created empty, a text written
  in part) is outside the model: what a theorem says of the card after an \<^verbatim>\<open>OSError\<close> is
  said of a failing open only.
\<close>

definition open_write :: "filesystem \<Rightarrow> string \<Rightarrow> open_mode \<Rightarrow> string \<Rightarrow> filesystem option" where
  "open_write fs p m data =
     (if p \<in> faulty fs \<or> p \<in> dirs fs then None
      else Some (fs\<lparr>files := (files fs)(p \<mapsto>
             (case m of ModeW \<Rightarrow> data | ModeA \<Rightarrow> content fs p @ data))\<rparr>))"

section \<open>Strings\<close>

text \<open>Python's \<^verbatim>\<open>sep.join(xs)\<close>.\<close>

fun str_join :: "string \<Rightarrow> string list \<Rightarrow> string" where
  "str_join sep [] = []"
| "str_join sep [x] = x"
| "str_join sep (x # y # ys) = x @ sep @ str_join sep (y # ys)"

text \<open>
  The reading side is not part of the repository. To state what a reader of the log sees,
  \<open>read_lines\<close> splits a text at its newlines the way Python's \<^verbatim>\<open>str.splitlines\<close> does
  for \<^verbatim>\<open>"\n"\<close>: every newline ends a line, and a last piece without a newline is a line
  when it is not empty. \<open>split_acc\<close> carries the line being read.
\<close>

fun split_acc :: "string \<Rightarrow> string \<Rightarrow> string list" where
  "split_acc cur [] = (if cur = [] then [] else [cur])"
| "split_acc cur (c # cs) =
     (if c = CHR 0x0A then cur # split_acc [] cs else split_acc (cur @ [c]) cs)"

definition read_lines :: "string \<Rightarrow> string list" where
  "read_lines s = split_acc [] s"

section \<open>The logger\<close>

text \<open>The attributes \<^verbatim>\<open>LoggerCSV.__init__\<close> sets. \<open>buffer_size\<close> is a Python \<^verbatim>\<open>int\<close>.\<close>

record LoggerCSV =
  file_name :: string
  sd_mountpoint :: string
  file_path :: string
  csv_headers :: "string list option"
  delimiter :: string
  buffer_size :: int
  buffer :: "string list"

text \<open>
  A method mutates the object and the card and then returns or raises. Its model returns
  the raised error (\<open>None\<close> when it returns), the logger and the filesystem as they are
  at that moment: what was mutated before a raise stays mutated.
\<close>

type_synonym outcome = "error option \<times> LoggerCSV \<times> filesystem"

definition verify_sd_mounted :: "LoggerCSV \<Rightarrow> filesystem \<Rightarrow> error option" where
  "verify_sd_mounted l fs =
     (if os_stat fs (sd_mountpoint l) then None else Some SDNotMountedError)"

definition file_exists :: "LoggerCSV \<Rightarrow> filesystem \<Rightarrow> bool" where
  "file_exists l fs \<longleftrightarrow> os_stat fs (file_path l)"

definition create_csv_with_headers :: "LoggerCSV \<Rightarrow> filesystem \<Rightarrow> outcome" where
  "create_csv_with_headers l fs =
     (if file_exists l fs then (None, l, fs)
      else case csv_headers l of
        None \<Rightarrow> (None, l, fs)
      | Some hs \<Rightarrow>
          (case open_write fs (file_path l) ModeW (str_join (delimiter l) hs @ ''\<newline>'') of
            None \<Rightarrow> (Some OSError, l, fs)
          | Some fs' \<Rightarrow> (None, l, fs')))"

definition post_init :: "LoggerCSV \<Rightarrow> filesystem \<Rightarrow> outcome" where
  "post_init l fs =
     (case verify_sd_mounted l fs of
        Some e \<Rightarrow> (Some e, l, fs)
      | None \<Rightarrow> create_csv_with_headers l fs)"

text \<open>
  \<^verbatim>\<open>LoggerCSV(file_name, sd_mountpoint, buffer_size, csv_headers)\<close>: the assignments of
  \<^verbatim>\<open>__init__\<close>, then \<^verbatim>\<open>_post_init\<close>. When \<^verbatim>\<open>_post_init\<close> raises, the caller gets no
  logger, only the error and the filesystem.
\<close>

definition init_fields :: "string \<Rightarrow> string \<Rightarrow> int \<Rightarrow> string list option \<Rightarrow> LoggerCSV" where
  "init_fields fname mp bsize hdrs =
     \<lparr>file_name = fname, sd_mountpoint = mp, file_path = mp @ ''/'' @ fname,
      csv_headers = hdrs, delimiter = '';'', buffer_size = bsize, buffer = []\<rparr>"

definition new_LoggerCSV ::
  "string \<Rightarrow> string \<Rightarrow> int \<Rightarrow> string list option \<Rightarrow> filesystem \<Rightarrow> (error + LoggerCSV) \<times> filesystem" where
  "new_LoggerCSV fname mp bsize hdrs fs =
     (case post_init (init_fields fname mp bsize hdrs) fs of
        (Some e, l, fs') \<Rightarrow> (Inl e, fs')
      | (None, l, fs') \<Rightarrow> (Inr l, fs'))"

definition buffer_full :: "LoggerCSV \<Rightarrow> bool" where
  "buffer_full l \<longleftrightarrow> int (length (buffer l)) \<ge> buffer_size l"

definition add_record_to_buffer :: "string \<Rightarrow> LoggerCSV \<Rightarrow> LoggerCSV" where
  "add_record_to_buffer r l = l\<lparr>buffer := buffer l @ [r]\<rparr>"

text \<open>\<^verbatim>\<open>_serialize_buffer\<close> returns the text and has cleared the buffer when it returns.\<close>

definition serialize_buffer :: "LoggerCSV \<Rightarrow> string \<times> LoggerCSV" where
  "serialize_buffer l = (str_join ''\<newline>'' (buffer l) @ ''\<newline>'', l\<lparr>buffer := []\<rparr>)"

definition write_buffer_to_file :: "LoggerCSV \<Rightarrow> filesystem \<Rightarrow> outcome" where
  "write_buffer_to_file l fs =
     (case serialize_buffer l of
        (serialized_buffer, l') \<Rightarrow>
          (case open_write fs (file_path l') ModeA serialized_buffer of
             None \<Rightarrow> (Some OSError, l', fs)
           | Some fs' \<Rightarrow> (None, l', fs')))"

text \<open>\<^verbatim>\<open>_validate_record\<close>: defined by the class, called by none of its methods.\<close>

definition validate_record :: "string \<Rightarrow> error option" where
  "validate_record r = (if CHR 0x0A \<in> set r then Some InvalideRecordError else None)"

definition write_record_with_buffer :: "string \<Rightarrow> LoggerCSV \<Rightarrow> filesystem \<Rightarrow> outcome" where
  "write_record_with_buffer r l fs =
     (let l1 = add_record_to_buffer r l
      in if buffer_full l1 then write_buffer_to_file l1 fs else (None, l1, fs))"

definition write_record :: "string \<Rightarrow> LoggerCSV \<Rightarrow> filesystem \<Rightarrow> outcome" where
  "write_record r l fs =
     (case open_write fs (file_path l) ModeA (r @ ''\<newline>'') of
        None \<Rightarrow> (Some OSError, l, fs)
      | Some fs' \<Rightarrow> (None, l, fs'))"

text \<open>\<^verbatim>\<open>__del__\<close>, the only close the class has: flush when the buffer is not empty.\<close>

definition del_LoggerCSV :: "LoggerCSV \<Rightarrow> filesystem \<Rightarrow> outcome" where
  "del_LoggerCSV l fs = (if buffer l \<noteq> [] then write_buffer_to_file l fs else (None, l, fs))"

text \<open>
  A caller's sequence of buffered writes. The first raise ends it, as an uncaught
  exception ends the caller's block.
\<close>

fun write_all :: "string list \<Rightarrow> LoggerCSV \<Rightarrow> filesystem \<Rightarrow> outcome" where
  "write_all [] l fs = (None, l, fs)"
| "write_all (r # rs) l fs =
     (case write_record_with_buffer r l fs of
        (Some e, l', fs') \<Rightarrow> (Some e, l', fs')
      | (None, l', fs') \<Rightarrow> write_all rs l' fs')"

text \<open>
  The logger and the card at the boundary after each call of a sequence of buffered
  writes, for a caller that catches whatever a call raises and goes on.
\<close>

fun boundaries :: "string list \<Rightarrow> LoggerCSV \<Rightarrow> filesystem \<Rightarrow> (LoggerCSV \<times> filesystem) list" where
  "boundaries [] l fs = []"
| "boundaries (r # rs) l fs =
     (case write_record_with_buffer r l fs of
        (e, l', fs') \<Rightarrow> (l', fs') # boundaries rs l' fs')"

section \<open>Notions of the specification\<close>

text \<open>The text of a sequence of record lines: each record followed by one newline.\<close>

definition lines_text :: "string list \<Rightarrow> string" where
  "lines_text rs = concat (map (\<lambda>r. r @ ''\<newline>'') rs)"

text \<open>
  The number of records a fresh logger with buffer size \<open>c\<close> has flushed after \<open>n\<close>
  buffered writes: all of them when \<open>c \<le> 0\<close>, else the full buffers, \<open>c\<close> records each.
\<close>

definition flushed_count :: "int \<Rightarrow> nat \<Rightarrow> nat" where
  "flushed_count c n = (if c \<le> 0 then n else (n div nat c) * nat c)"

text \<open>The open of the target file for writing succeeds.\<close>

definition writable :: "filesystem \<Rightarrow> string \<Rightarrow> bool" where
  "writable fs p \<longleftrightarrow> p \<notin> faulty fs \<and> p \<notin> dirs fs"

section \<open>The set-up of \<^verbatim>\<open>main.py\<close>\<close>

text \<open>
  \<^verbatim>\<open>main.py\<close> mounts the card and builds
  \<^verbatim>\<open>LoggerCSV(file_name="sensor.csv", csv_headers=["date", "value"], buffer_size=3)\<close>
  with the default mount point \<^verbatim>\<open>"sd"\<close>. \<open>sd_card\<close> is the freshly mounted, empty card,
  \<open>sd_card_failing\<close> the same card refusing writes to the log file, \<open>sensor_logger\<close> the
  attributes of that logger.
\<close>

definition sd_card :: filesystem where
  "sd_card = \<lparr>files = Map.empty, dirs = {''sd''}, faulty = {}\<rparr>"

definition sd_card_failing :: filesystem where
  "sd_card_failing = \<lparr>files = Map.empty, dirs = {''sd''}, faulty = {''sd/sensor.csv''}\<rparr>"

definition sensor_logger :: LoggerCSV where
  "sensor_logger = init_fields ''sensor.csv'' ''sd'' 3 (Some [''date'', ''value''])"

section \<open>Basic facts\<close>

lemma str_join_sep: "xs \<noteq> [] \<Longrightarrow> str_join sep xs @ sep = concat (map (\<lambda>r. r @ sep) xs)"
  by (induction sep xs rule: str_join.induct) auto

lemma str_join_chars: "set (str_join sep xs) \<subseteq> set sep \<union> (\<Union>x\<in>set xs. set x)"
  by (induction sep xs rule: str_join.induct) auto

lemma split_acc_line:
  "CHR 0x0A \<notin> set r \<Longrightarrow> split_acc cur (r @ CHR 0x0A # s) = (cur @ r) # split_acc [] s"
  by (induction r arbitrary: cur) auto

lemma read_lines_text:
  "\<forall>r\<in>set rs. CHR 0x0A \<notin> set r \<Longrightarrow> read_lines (lines_text rs) = rs"
  unfolding read_lines_def lines_text_def
  by (induction rs) (auto simp: split_acc_line)

lemma read_lines_single: "CHR 0x0A \<notin> set r \<Longrightarrow> read_lines (r @ ''\<newline>'') = [r]"
  using split_acc_line [of r "[]" "[]"] by (simp add: read_lines_def)

lemma lines_text_Cons: "lines_text (r # rs) = lines_text [r] @ lines_text rs"
  by (simp add: lines_text_def)

lemma lines_text_append: "lines_text (xs @ ys) = lines_text xs @ lines_text ys"
  by (simp add: lines_text_def)

lemma open_write_writable:
  "writable fs p \<Longrightarrow>
   open_write fs p m d = Some (fs\<lparr>files := (files fs)(p \<mapsto> (case m of ModeW \<Rightarrow> d | ModeA \<Rightarrow> content fs p @ d))\<rparr>)"
  by (simp add: open_write_def writable_def)

lemma open_write_unwritable: "\<not> writable fs p \<Longrightarrow> open_write fs p m d = None"
  by (auto simp: open_write_def writable_def)

lemma open_write_dirs: "open_write fs p m d = Some fs' \<Longrightarrow> dirs fs' = dirs fs"
  by (auto simp: open_write_def split: if_splits)

lemma content_upd: "content (fs\<lparr>files := (files fs)(p \<mapsto> d)\<rparr>) p = d"
  by (simp add: content_def)

lemma writable_upd: "writable (fs\<lparr>files := f\<rparr>) p = writable fs p"
  by (simp add: writable_def)

lemma os_stat_upd: "os_stat fs q \<Longrightarrow> os_stat (fs\<lparr>files := (files fs)(p \<mapsto> d)\<rparr>) q"
  by (auto simp: os_stat_def)

lemma os_stat_upd_self: "os_stat (fs\<lparr>files := (files fs)(p \<mapsto> d)\<rparr>) p"
  by (auto simp: os_stat_def)

lemma flush_ok:
  "writable fs (file_path l) \<Longrightarrow>
   write_buffer_to_file l fs =
     (None, l\<lparr>buffer := []\<rparr>,
      fs\<lparr>files := (files fs)(file_path l \<mapsto>
            content fs (file_path l) @ str_join ''\<newline>'' (buffer l) @ ''\<newline>'')\<rparr>)"
  by (simp add: write_buffer_to_file_def serialize_buffer_def open_write_writable)

lemma flush_ok_lines:
  "writable fs (file_path l) \<Longrightarrow> buffer l \<noteq> [] \<Longrightarrow>
   write_buffer_to_file l fs =
     (None, l\<lparr>buffer := []\<rparr>,
      fs\<lparr>files := (files fs)(file_path l \<mapsto>
            content fs (file_path l) @ lines_text (buffer l))\<rparr>)"
  using str_join_sep [of "buffer l" "''\<newline>''"]
  by (simp add: flush_ok lines_text_def)

lemma flush_clears: "buffer (fst (snd (write_buffer_to_file l fs))) = []"
  by (simp add: write_buffer_to_file_def serialize_buffer_def split: option.splits)

lemma flush_keeps_size: "buffer_size (fst (snd (write_buffer_to_file l fs))) = buffer_size l"
  by (simp add: write_buffer_to_file_def serialize_buffer_def split: option.splits)

lemma flush_outcome: "fst (write_buffer_to_file l fs) \<in> {None, Some OSError}"
  by (simp add: write_buffer_to_file_def serialize_buffer_def split: option.splits)

lemma flush_dirs: "dirs (snd (snd (write_buffer_to_file l fs))) = dirs fs"
proof (cases "open_write fs (file_path l) ModeA (str_join ''\<newline>'' (buffer l) @ ''\<newline>'')")
  case None
  then show ?thesis by (simp add: write_buffer_to_file_def serialize_buffer_def)
next
  case (Some fs')
  then show ?thesis
    using open_write_dirs [OF Some] by (simp add: write_buffer_to_file_def serialize_buffer_def)
qed

lemma write_record_dirs: "dirs (snd (snd (write_record r l fs))) = dirs fs"
proof (cases "open_write fs (file_path l) ModeA (r @ ''\<newline>'')")
  case None
  then show ?thesis by (simp add: write_record_def)
next
  case (Some fs')
  then show ?thesis using open_write_dirs [OF Some] by (simp add: write_record_def)
qed

lemma write_all_inv:
  "writable fs (file_path l) \<Longrightarrow>
   \<exists>flushed l' fs'. write_all rs l fs = (None, l', fs') \<and>
      l' = l\<lparr>buffer := buffer l'\<rparr> \<and>
      flushed @ buffer l' = buffer l @ rs \<and>
      content fs' (file_path l) = content fs (file_path l) @ lines_text flushed \<and>
      writable fs' (file_path l)"
proof (induction rs arbitrary: l fs)
  case Nil
  show ?case by (rule exI [of _ "[]"]) (simp add: lines_text_def Nil.prems)
next
  case (Cons r rs)
  let ?l1 = "add_record_to_buffer r l"
  have p1: "file_path ?l1 = file_path l" and b1: "buffer ?l1 = buffer l @ [r]"
    by (simp_all add: add_record_to_buffer_def)
  show ?case
  proof (cases "buffer_full ?l1")
    case True
    let ?l2 = "?l1\<lparr>buffer := []\<rparr>"
    let ?fs2 = "fs\<lparr>files := (files fs)(file_path l \<mapsto>
            content fs (file_path l) @ lines_text (buffer l @ [r]))\<rparr>"
    have step: "write_record_with_buffer r l fs = (None, ?l2, ?fs2)"
      using True Cons.prems flush_ok_lines [of fs ?l1]
      by (simp add: write_record_with_buffer_def p1 b1)
    have w2: "writable ?fs2 (file_path ?l2)"
      using Cons.prems by (simp add: writable_upd add_record_to_buffer_def)
    from Cons.IH [OF w2] obtain flushed l' fs' where
      h: "write_all rs ?l2 ?fs2 = (None, l', fs')" "l' = ?l2\<lparr>buffer := buffer l'\<rparr>"
         "flushed @ buffer l' = buffer ?l2 @ rs"
         "content fs' (file_path ?l2) = content ?fs2 (file_path ?l2) @ lines_text flushed"
         "writable fs' (file_path ?l2)"
      by blast
    show ?thesis
      apply (rule exI [of _ "(buffer l @ [r]) @ flushed"])
      apply (rule exI [of _ l'], rule exI [of _ fs'])
      using h step
      apply (simp add: add_record_to_buffer_def content_upd lines_text_append lines_text_Cons [of r flushed])
      done
  next
    case False
    have step: "write_record_with_buffer r l fs = (None, ?l1, fs)"
      using False by (simp add: write_record_with_buffer_def)
    have w1: "writable fs (file_path ?l1)" using Cons.prems by (simp add: p1)
    from Cons.IH [OF w1] obtain flushed l' fs' where
      h: "write_all rs ?l1 fs = (None, l', fs')" "l' = ?l1\<lparr>buffer := buffer l'\<rparr>"
         "flushed @ buffer l' = buffer ?l1 @ rs"
         "content fs' (file_path ?l1) = content fs (file_path ?l1) @ lines_text flushed"
         "writable fs' (file_path ?l1)"
      by blast
    show ?thesis
      apply (rule exI [of _ flushed])
      apply (rule exI [of _ l'], rule exI [of _ fs'])
      using h step
      apply (simp add: add_record_to_buffer_def)
      done
  qed
qed

lemma buffered_step_occupancy:
  assumes "int (length (buffer l)) < buffer_size l"
    and "write_record_with_buffer r l fs = (e, l', fs')"
  shows "int (length (buffer l')) < buffer_size l' \<and> buffer_size l' = buffer_size l"
proof (cases "buffer_full (add_record_to_buffer r l)")
  case True
  then have "l' = fst (snd (write_buffer_to_file (add_record_to_buffer r l) fs))"
    using assms(2) by (simp add: write_record_with_buffer_def)
  then show ?thesis
    using assms(1) by (simp add: flush_clears flush_keeps_size add_record_to_buffer_def)
next
  case False
  then have "l' = add_record_to_buffer r l"
    using assms(2) by (simp add: write_record_with_buffer_def)
  then show ?thesis
    using False by (simp add: buffer_full_def add_record_to_buffer_def)
qed

lemma boundaries_occupancy:
  "int (length (buffer l)) < buffer_size l \<Longrightarrow>
   \<forall>(l', fs') \<in> set (boundaries rs l fs).
      int (length (buffer l')) < buffer_size l' \<and> buffer_size l' = buffer_size l"
proof (induction rs arbitrary: l fs)
  case Nil
  then show ?case by simp
next
  case (Cons r rs)
  obtain e l1 fs1 where st: "write_record_with_buffer r l fs = (e, l1, fs1)"
    by (cases "write_record_with_buffer r l fs") auto
  from buffered_step_occupancy [OF Cons.prems st]
  have i1: "int (length (buffer l1)) < buffer_size l1" and s1: "buffer_size l1 = buffer_size l"
    by simp_all
  from Cons.IH [OF i1, of fs1] show ?case
    using st i1 s1 by auto
qed

lemma length_boundaries: "length (boundaries rs l fs) = length rs"
  by (induction rs arbitrary: l fs) (auto split: prod.splits)

lemma unbuffered_step:
  assumes "buffer_size l \<le> 0"
  shows "write_record_with_buffer r l fs = write_buffer_to_file (add_record_to_buffer r l) fs"
  using assms by (simp add: write_record_with_buffer_def Let_def buffer_full_def add_record_to_buffer_def)

lemma unbuffered_step_ok:
  assumes "buffer_size l \<le> 0" and "writable fs (file_path l)"
  shows "write_record_with_buffer r l fs =
     (None, l\<lparr>buffer := []\<rparr>,
      fs\<lparr>files := (files fs)(file_path l \<mapsto>
            content fs (file_path l) @ lines_text (buffer l @ [r]))\<rparr>)"
  using assms flush_ok_lines [of fs "add_record_to_buffer r l"]
  by (simp add: unbuffered_step add_record_to_buffer_def)

lemma unbuffered_write_all:
  "buffer_size l \<le> 0 \<Longrightarrow> buffer l = [] \<Longrightarrow> writable fs (file_path l) \<Longrightarrow>
   \<exists>fs'. write_all rs l fs = (None, l, fs') \<and>
         content fs' (file_path l) = content fs (file_path l) @ lines_text rs"
proof (induction rs arbitrary: fs)
  case Nil
  then show ?case by (simp add: lines_text_def)
next
  case (Cons r rs)
  let ?fs1 = "fs\<lparr>files := (files fs)(file_path l \<mapsto>
            content fs (file_path l) @ lines_text [r])\<rparr>"
  have st: "write_record_with_buffer r l fs = (None, l, ?fs1)"
    using unbuffered_step_ok [OF Cons.prems(1,3), of r] Cons.prems(2) by simp
  have w1: "writable ?fs1 (file_path l)"
    using Cons.prems(3) by (simp add: writable_upd)
  from Cons.IH [OF Cons.prems(1,2) w1] obtain fs' where
    h: "write_all rs l ?fs1 = (None, l, fs')"
       "content fs' (file_path l) = content ?fs1 (file_path l) @ lines_text rs"
    by blast
  show ?case
    using st h by (simp add: content_upd lines_text_Cons [of r rs])
qed

lemma write_all_append:
  "write_all (xs @ ys) l fs =
     (case write_all xs l fs of
        (Some e, l', fs') \<Rightarrow> (Some e, l', fs')
      | (None, l', fs') \<Rightarrow> write_all ys l' fs')"
  by (induction xs arbitrary: l fs) (auto split: prod.splits option.splits)

lemma full_buffers_step:
  fixes c n :: nat
  assumes "0 < c"
  shows "n mod c + 1 = c \<Longrightarrow> (Suc n div c) * c = Suc n"
    and "n mod c + 1 < c \<Longrightarrow> (Suc n div c) * c = (n div c) * c"
proof -
  assume a: "n mod c + 1 = c"
  have "Suc n mod c = 0" using a assms by (metis Suc_eq_plus1 mod_Suc mod_self not_less_iff_gr_or_eq)
  then show "(Suc n div c) * c = Suc n" by (metis div_mult_mod_eq add.right_neutral)
next
  assume a: "n mod c + 1 < c"
  then have "Suc n div c = n div c" by (simp add: div_Suc mod_Suc)
  then show "(Suc n div c) * c = (n div c) * c" by simp
qed

lemma write_all_full_buffers:
  assumes c: "1 \<le> buffer_size l" and fresh: "buffer l = []"
    and w: "writable fs (file_path l)"
  shows "\<exists>fs'. write_all rs l fs =
            (None, l\<lparr>buffer := drop ((length rs div nat (buffer_size l)) * nat (buffer_size l)) rs\<rparr>, fs') \<and>
          content fs' (file_path l) = content fs (file_path l) @
            lines_text (take ((length rs div nat (buffer_size l)) * nat (buffer_size l)) rs) \<and>
          writable fs' (file_path l)"
proof (induction rs rule: rev_induct)
  case Nil
  have "l\<lparr>buffer := []\<rparr> = l" using fresh by simp
  then show ?case using w by (simp add: lines_text_def)
next
  case (snoc r rs)
  define m where "m = nat (buffer_size l)"
  define k where "k = (length rs div m) * m"
  have m0: "0 < m" and mc: "int m = buffer_size l" using c by (simp_all add: m_def)
  have kn: "k \<le> length rs" by (simp add: k_def)
  have rem: "length rs - k = length rs mod m"
    unfolding k_def by (metis add_diff_cancel_left' div_mult_mod_eq)
  have remlt: "length rs mod m < m" using m0 by simp
  from snoc.IH obtain fs1 where
    h: "write_all rs l fs = (None, l\<lparr>buffer := drop k rs\<rparr>, fs1)"
       "content fs1 (file_path l) = content fs (file_path l) @ lines_text (take k rs)"
       "writable fs1 (file_path l)"
    unfolding k_def m_def by blast
  let ?l1 = "l\<lparr>buffer := drop k rs\<rparr>"
  let ?l2 = "add_record_to_buffer r ?l1"
  have b2: "buffer ?l2 = drop k rs @ [r]" and p2: "file_path ?l2 = file_path l"
    by (simp_all add: add_record_to_buffer_def)
  have full_iff: "buffer_full ?l2 \<longleftrightarrow> length rs mod m + 1 = m"
    using remlt rem mc by (auto simp: buffer_full_def add_record_to_buffer_def)
  show ?case
  proof (cases "buffer_full ?l2")
    case True
    then have e: "length rs mod m + 1 = m" using full_iff by simp
    have k': "(length (rs @ [r]) div m) * m = Suc (length rs)"
      using full_buffers_step(1) [OF m0 e] by simp
    let ?fs2 = "fs1\<lparr>files := (files fs1)(file_path l \<mapsto>
                  content fs1 (file_path l) @ lines_text (drop k rs @ [r]))\<rparr>"
    have st: "write_record_with_buffer r ?l1 fs1 = (None, l\<lparr>buffer := []\<rparr>, ?fs2)"
      using True h(3) flush_ok_lines [of fs1 ?l2]
      by (simp add: write_record_with_buffer_def Let_def b2 p2) (simp add: add_record_to_buffer_def)
    have "lines_text (take k rs) @ lines_text (drop k rs @ [r]) = lines_text (rs @ [r])"
      by (metis append_assoc append_take_drop_id lines_text_append)
    then have ct: "content ?fs2 (file_path l) = content fs (file_path l) @ lines_text (rs @ [r])"
      using h(2) by (simp add: content_upd)
    have w2: "writable ?fs2 (file_path l)" using h(3) by (simp add: writable_upd)
    have "write_all (rs @ [r]) l fs = (None, l\<lparr>buffer := []\<rparr>, ?fs2)"
      using h(1) st by (simp add: write_all_append)
    then show ?thesis
      using ct w2 unfolding m_def [symmetric] k' by (intro exI [of _ ?fs2]) simp
  next
    case False
    then have e: "length rs mod m + 1 < m" using full_iff remlt by simp
    have k': "(length (rs @ [r]) div m) * m = k"
      using full_buffers_step(2) [OF m0 e] by (simp add: k_def)
    have st: "write_record_with_buffer r ?l1 fs1 = (None, l\<lparr>buffer := drop k rs @ [r]\<rparr>, fs1)"
      using False by (simp add: write_record_with_buffer_def Let_def) (simp add: add_record_to_buffer_def)
    have "write_all (rs @ [r]) l fs = (None, l\<lparr>buffer := drop k rs @ [r]\<rparr>, fs1)"
      using h(1) st by (simp add: write_all_append)
    then show ?thesis
      using h(2,3) kn unfolding m_def [symmetric] k' by (intro exI [of _ fs1]) simp
  qed
qed

lemma write_all_flushed:
  assumes fresh: "buffer l = []" and w: "writable fs (file_path l)"
  shows "\<exists>fs'. write_all rs l fs =
            (None, l\<lparr>buffer := drop (flushed_count (buffer_size l) (length rs)) rs\<rparr>, fs') \<and>
          content fs' (file_path l) = content fs (file_path l) @
            lines_text (take (flushed_count (buffer_size l) (length rs)) rs) \<and>
          writable fs' (file_path l)"
proof (cases "buffer_size l \<le> 0")
  case True
  from unbuffered_write_all [OF True fresh w, of rs] obtain fs' where
    u: "write_all rs l fs = (None, l, fs')"
       "content fs' (file_path l) = content fs (file_path l) @ lines_text rs"
    by blast
  from write_all_inv [OF w, of rs] u(1) have w': "writable fs' (file_path l)"
    by auto
  have "l\<lparr>buffer := []\<rparr> = l" using fresh by simp
  then show ?thesis
    using u w' True by (intro exI [of _ fs']) (simp add: flushed_count_def)
next
  case False
  then have c: "1 \<le> buffer_size l" by simp
  show ?thesis
    using write_all_full_buffers [OF c fresh w, of rs] False by (simp add: flushed_count_def)
qed

lemma create_dirs: "dirs (snd (snd (create_csv_with_headers l fs))) = dirs fs"
proof (cases "file_exists l fs")
  case True
  then show ?thesis by (simp add: create_csv_with_headers_def)
next
  case False
  show ?thesis
  proof (cases "csv_headers l")
    case None
    then show ?thesis using False by (simp add: create_csv_with_headers_def)
  next
    case (Some hs)
    show ?thesis
    proof (cases "open_write fs (file_path l) ModeW (str_join (delimiter l) hs @ ''\<newline>'')")
      case None
      then show ?thesis using False Some by (simp add: create_csv_with_headers_def)
    next
      case (Some fs')
      then show ?thesis
        using False \<open>csv_headers l = Some hs\<close> open_write_dirs [OF Some]
        by (simp add: create_csv_with_headers_def)
    qed
  qed
qed

lemma new_LoggerCSV_mounted:
  "os_stat fs mp \<Longrightarrow>
   new_LoggerCSV fname mp bsize hdrs fs =
     (case create_csv_with_headers (init_fields fname mp bsize hdrs) fs of
        (Some e, l, fs') \<Rightarrow> (Inl e, fs')
      | (None, l, fs') \<Rightarrow> (Inr l, fs'))"
  by (simp add: new_LoggerCSV_def post_init_def verify_sd_mounted_def init_fields_def)

lemma new_LoggerCSV_existing:
  "os_stat fs mp \<Longrightarrow> os_stat fs (mp @ ''/'' @ fname) \<Longrightarrow>
   new_LoggerCSV fname mp bsize hdrs fs = (Inr (init_fields fname mp bsize hdrs), fs)"
  by (simp add: new_LoggerCSV_mounted create_csv_with_headers_def file_exists_def init_fields_def)

lemma new_LoggerCSV_no_headers:
  "os_stat fs mp \<Longrightarrow>
   new_LoggerCSV fname mp bsize None fs = (Inr (init_fields fname mp bsize None), fs)"
  by (simp add: new_LoggerCSV_mounted create_csv_with_headers_def file_exists_def init_fields_def)

lemma new_LoggerCSV_header:
  "os_stat fs mp \<Longrightarrow> \<not> os_stat fs (mp @ ''/'' @ fname) \<Longrightarrow> mp @ ''/'' @ fname \<notin> faulty fs \<Longrightarrow>
   new_LoggerCSV fname mp bsize (Some hs) fs =
     (Inr (init_fields fname mp bsize (Some hs)),
      fs\<lparr>files := (files fs)(mp @ ''/'' @ fname \<mapsto> str_join '';'' hs @ ''\<newline>'')\<rparr>)"
  by (simp add: new_LoggerCSV_mounted create_csv_with_headers_def file_exists_def init_fields_def
      open_write_def os_stat_def)

lemma new_LoggerCSV_result:
  assumes m: "os_stat fs mp" and ok: "mp @ ''/'' @ fname \<notin> faulty fs"
  shows "new_LoggerCSV fname mp bsize hdrs fs =
       (Inr (init_fields fname mp bsize hdrs),
        case hdrs of
          None \<Rightarrow> fs
        | Some hs \<Rightarrow>
            if os_stat fs (mp @ ''/'' @ fname) then fs
            else fs\<lparr>files := (files fs)(mp @ ''/'' @ fname \<mapsto> str_join '';'' hs @ ''\<newline>'')\<rparr>)"
proof (cases hdrs)
  case None
  then show ?thesis using m by (simp add: new_LoggerCSV_no_headers)
next
  case (Some hs)
  then show ?thesis using m ok
    by (cases "os_stat fs (mp @ ''/'' @ fname)")
      (simp_all add: new_LoggerCSV_existing new_LoggerCSV_header)
qed

lemma new_dirs: "dirs (snd (new_LoggerCSV fname mp bsize hdrs fs)) = dirs fs"
proof (cases "os_stat fs mp")
  case True
  obtain e l' fs' where c: "create_csv_with_headers (init_fields fname mp bsize hdrs) fs = (e, l', fs')"
    by (cases "create_csv_with_headers (init_fields fname mp bsize hdrs) fs") auto
  have "dirs fs' = dirs fs"
    using create_dirs [of "init_fields fname mp bsize hdrs" fs] by (simp add: c)
  then show ?thesis
    by (cases e) (simp_all add: new_LoggerCSV_mounted [OF True] c)
next
  case False
  then show ?thesis
    by (simp add: new_LoggerCSV_def post_init_def verify_sd_mounted_def init_fields_def)
qed

section \<open>Buffered writes and flushes\<close>

text \<open>
  C1 says that after every sequence of buffered writes the record lines appended to the
  file are the submitted records. Records wait in the buffer until it is full: after two
  buffered writes to \<^verbatim>\<open>main.py\<close>'s logger (buffer size 3) both calls have returned, both
  records are pending, and the card is untouched, so a reader finds no line.
\<close>

theorem flush_boundary_invisibility_counterexample:
  "write_all [''a'', ''b''] sensor_logger sd_card =
     (None, sensor_logger\<lparr>buffer := [''a'', ''b'']\<rparr>, sd_card)
   \<and> read_lines (content sd_card (file_path sensor_logger)) = []
   \<and> read_lines (content (snd (snd (write_all [''a'', ''b''] sensor_logger sd_card)))
        (file_path sensor_logger)) \<noteq> [''a'', ''b'']"
  by (simp add: write_record_with_buffer_def add_record_to_buffer_def buffer_full_def
      content_def read_lines_def sensor_logger_def init_fields_def sd_card_def)

text \<open>
  C1 as amended, flush boundary invisibility. On a card that accepts the writes, a flush
  of the pending records appends them joined by a newline, with one trailing newline, to
  what the file holds (append mode). For a fresh logger and every sequence \<open>rs\<close> of
  records without a newline the calls all return, and with \<open>k\<close> the number of records in
  the buffers filled so far (\<open>flushed_count\<close>: all of them when the buffer size is not
  positive): the text appended to the file is the first \<open>k\<close> records, one per line and in
  call order, which a reader splits back into those records; the buffer holds the
  remaining records in call order; and once the close has flushed these, the lines
  appended to the file are exactly \<open>rs\<close>, wherever the flush boundaries fell.
\<close>

theorem flush_boundary_invisibility:
  assumes w: "writable fs (file_path l)"
    and fresh: "buffer l = []"
    and nl: "\<forall>r\<in>set rs. CHR 0x0A \<notin> set r"
  shows "write_buffer_to_file (l\<lparr>buffer := pending\<rparr>) fs =
           (None, l,
            fs\<lparr>files := (files fs)(file_path l \<mapsto>
               content fs (file_path l) @ str_join ''\<newline>'' pending @ ''\<newline>'')\<rparr>)
       \<and> (\<exists>fs'.
             write_all rs l fs =
               (None, l\<lparr>buffer := drop (flushed_count (buffer_size l) (length rs)) rs\<rparr>, fs') \<and>
             content fs' (file_path l) = content fs (file_path l) @
               lines_text (take (flushed_count (buffer_size l) (length rs)) rs) \<and>
             read_lines (lines_text (take (flushed_count (buffer_size l) (length rs)) rs)) =
               take (flushed_count (buffer_size l) (length rs)) rs \<and>
             (\<exists>fs''.
                del_LoggerCSV
                  (l\<lparr>buffer := drop (flushed_count (buffer_size l) (length rs)) rs\<rparr>) fs' =
                  (None, l, fs'') \<and>
                content fs'' (file_path l) = content fs (file_path l) @ lines_text rs \<and>
                read_lines (lines_text rs) = rs))"
proof
  have "l\<lparr>buffer := []\<rparr> = l" using fresh by simp
  then show "write_buffer_to_file (l\<lparr>buffer := pending\<rparr>) fs =
           (None, l,
            fs\<lparr>files := (files fs)(file_path l \<mapsto>
               content fs (file_path l) @ str_join ''\<newline>'' pending @ ''\<newline>'')\<rparr>)"
    using w flush_ok [of fs "l\<lparr>buffer := pending\<rparr>"] by simp
next
  define k where "k = flushed_count (buffer_size l) (length rs)"
  let ?l1 = "l\<lparr>buffer := drop k rs\<rparr>"
  from write_all_flushed [OF fresh w, of rs] obtain fs' where
    h: "write_all rs l fs = (None, ?l1, fs')"
       "content fs' (file_path l) = content fs (file_path l) @ lines_text (take k rs)"
       "writable fs' (file_path l)"
    unfolding k_def by blast
  have "set (take k rs) \<subseteq> set rs" by (rule set_take_subset)
  then have rl: "read_lines (lines_text (take k rs)) = take k rs"
    using nl by (intro read_lines_text) blast
  have e: "l\<lparr>buffer := []\<rparr> = l" using fresh by simp
  have close: "\<exists>fs''. del_LoggerCSV ?l1 fs' = (None, l, fs'') \<and>
                content fs'' (file_path l) = content fs (file_path l) @ lines_text rs"
  proof (cases "drop k rs = []")
    case True
    then have "take k rs = rs" by (metis append_Nil2 append_take_drop_id)
    then show ?thesis using True h(2) e fresh by (simp add: del_LoggerCSV_def)
  next
    case False
    have "lines_text (take k rs) @ lines_text (drop k rs) = lines_text rs"
      by (metis append_take_drop_id lines_text_append)
    then show ?thesis
      using False h(2,3) e flush_ok_lines [of fs' ?l1]
      by (simp add: del_LoggerCSV_def content_upd)
  qed
  show "\<exists>fs'.
             write_all rs l fs =
               (None, l\<lparr>buffer := drop (flushed_count (buffer_size l) (length rs)) rs\<rparr>, fs') \<and>
             content fs' (file_path l) = content fs (file_path l) @
               lines_text (take (flushed_count (buffer_size l) (length rs)) rs) \<and>
             read_lines (lines_text (take (flushed_count (buffer_size l) (length rs)) rs)) =
               take (flushed_count (buffer_size l) (length rs)) rs \<and>
             (\<exists>fs''.
                del_LoggerCSV
                  (l\<lparr>buffer := drop (flushed_count (buffer_size l) (length rs)) rs\<rparr>) fs' =
                  (None, l, fs'') \<and>
                content fs'' (file_path l) = content fs (file_path l) @ lines_text rs \<and>
                read_lines (lines_text rs) = rs)"
    unfolding k_def [symmetric]
    using h(1,2) rl close read_lines_text [OF nl] by blast
qed

theorem flush_boundary_invisibility_witness:
  "flushed_count (buffer_size sensor_logger) (length [''a'', ''b'', ''c'', ''d'']) = 3
   \<and> (\<exists>fs'.
        write_all [''a'', ''b'', ''c'', ''d''] sensor_logger sd_card =
          (None, sensor_logger\<lparr>buffer := [''d'']\<rparr>, fs') \<and>
        content fs' (file_path sensor_logger) =
          content sd_card (file_path sensor_logger) @ ''a\<newline>b\<newline>c\<newline>'' \<and>
        read_lines ''a\<newline>b\<newline>c\<newline>'' = [''a'', ''b'', ''c''])"
proof -
  have h1: "writable sd_card (file_path sensor_logger)"
    by (simp add: writable_def sd_card_def sensor_logger_def init_fields_def)
  have h2: "buffer sensor_logger = []"
    by (simp add: sensor_logger_def init_fields_def)
  have h3: "\<forall>r\<in>set [''a'', ''b'', ''c'', ''d'']. CHR 0x0A \<notin> set r"
    by simp
  have k: "flushed_count (buffer_size sensor_logger) (length [''a'', ''b'', ''c'', ''d'']) = 3"
    by (simp add: flushed_count_def sensor_logger_def init_fields_def)
  have t: "take 3 [''a'', ''b'', ''c'', ''d''] = [''a'', ''b'', ''c'']"
    and d: "drop 3 [''a'', ''b'', ''c'', ''d''] = [''d'']"
    by (simp_all add: numeral_3_eq_3)
  have lt: "lines_text [''a'', ''b'', ''c''] = ''a\<newline>b\<newline>c\<newline>''"
    by (simp add: lines_text_def)
  note inst = flush_boundary_invisibility [OF h1 h2 h3, of "[]", THEN conjunct2]
  have "\<exists>fs'.
        write_all [''a'', ''b'', ''c'', ''d''] sensor_logger sd_card =
          (None, sensor_logger\<lparr>buffer := [''d'']\<rparr>, fs') \<and>
        content fs' (file_path sensor_logger) =
          content sd_card (file_path sensor_logger) @ ''a\<newline>b\<newline>c\<newline>'' \<and>
        read_lines ''a\<newline>b\<newline>c\<newline>'' = [''a'', ''b'', ''c'']"
    using inst unfolding k t d lt by blast
  with k show ?thesis by (rule conjI)
qed

text \<open>
  C2 says that a flush whose file write fails leaves the pending records in the buffer.
  \<^verbatim>\<open>_serialize_buffer\<close> clears the buffer before \<^verbatim>\<open>_write_buffer_to_file\<close> opens the
  file: on the card that refuses the write, the flush of \<open>a\<close>, \<open>b\<close> raises \<^verbatim>\<open>OSError\<close> and
  the buffer is empty, and so it is after the third buffered write of \<^verbatim>\<open>main.py\<close>'s logger.
\<close>

theorem failed_flush_discards_counterexample:
  "write_buffer_to_file (sensor_logger\<lparr>buffer := [''a'', ''b'']\<rparr>) sd_card_failing =
     (Some OSError, sensor_logger, sd_card_failing)
   \<and> buffer (sensor_logger\<lparr>buffer := [''a'', ''b'']\<rparr>) = [''a'', ''b'']
   \<and> buffer sensor_logger = []
   \<and> write_all [''a'', ''b'', ''c''] sensor_logger sd_card_failing =
     (Some OSError, sensor_logger, sd_card_failing)"
  by (simp add: write_record_with_buffer_def add_record_to_buffer_def buffer_full_def
      write_buffer_to_file_def serialize_buffer_def open_write_def
      sensor_logger_def init_fields_def sd_card_failing_def)

text \<open>
  C2 as amended. If the file write performed by a flush fails (the open raises), the
  \<^verbatim>\<open>OSError\<close> reaches the caller and the card is as it was, but the buffer has already
  been cleared: the pending records are discarded, and a retry of the flush has nothing
  left to write.
\<close>

theorem failed_flush_discards:
  assumes "open_write fs (file_path l) ModeA (fst (serialize_buffer l)) = None"
  shows "write_buffer_to_file l fs = (Some OSError, l\<lparr>buffer := []\<rparr>, fs)"
  using assms by (simp add: write_buffer_to_file_def serialize_buffer_def)

theorem failed_flush_discards_witness:
  "write_buffer_to_file (sensor_logger\<lparr>buffer := [''a'', ''b'']\<rparr>) sd_card_failing =
     (Some OSError, sensor_logger\<lparr>buffer := [''a'', ''b''], buffer := []\<rparr>, sd_card_failing)"
proof -
  have h: "open_write sd_card_failing (file_path (sensor_logger\<lparr>buffer := [''a'', ''b'']\<rparr>)) ModeA
             (fst (serialize_buffer (sensor_logger\<lparr>buffer := [''a'', ''b'']\<rparr>))) = None"
    by (simp add: open_write_def sd_card_failing_def sensor_logger_def init_fields_def)
  show ?thesis by (rule failed_flush_discards [OF h])
qed

text \<open>
  C3 says that both write paths reject a record with an embedded newline with
  \<^verbatim>\<open>InvalideRecordError\<close>, leaving file and buffer unchanged. \<^verbatim>\<open>_validate_record\<close> does
  reject \<^verbatim>\<open>"a\nb"\<close>, but neither write path calls it: the buffered write returns with the
  record in the buffer, the immediate write returns with the record in the file, where a
  reader finds two lines for the one record. No call of either path, on any record, raises
  \<^verbatim>\<open>InvalideRecordError\<close>.
\<close>

theorem newline_record_accepted:
  "validate_record ''a\<newline>b'' = Some InvalideRecordError
   \<and> write_record_with_buffer ''a\<newline>b'' sensor_logger sd_card =
       (None, sensor_logger\<lparr>buffer := [''a\<newline>b'']\<rparr>, sd_card)
   \<and> write_record ''a\<newline>b'' sensor_logger sd_card =
       (None, sensor_logger, sd_card\<lparr>files := [''sd/sensor.csv'' \<mapsto> ''a\<newline>b\<newline>'']\<rparr>)
   \<and> read_lines ''a\<newline>b\<newline>'' = [''a'', ''b'']
   \<and> fst (write_record_with_buffer r l fs) \<noteq> Some InvalideRecordError
   \<and> fst (write_record r l fs) \<noteq> Some InvalideRecordError"
proof -
  have c: "validate_record ''a\<newline>b'' = Some InvalideRecordError
   \<and> write_record_with_buffer ''a\<newline>b'' sensor_logger sd_card =
       (None, sensor_logger\<lparr>buffer := [''a\<newline>b'']\<rparr>, sd_card)
   \<and> write_record ''a\<newline>b'' sensor_logger sd_card =
       (None, sensor_logger, sd_card\<lparr>files := [''sd/sensor.csv'' \<mapsto> ''a\<newline>b\<newline>'']\<rparr>)
   \<and> read_lines ''a\<newline>b\<newline>'' = [''a'', ''b'']"
    by (simp add: validate_record_def write_record_with_buffer_def add_record_to_buffer_def
        buffer_full_def write_record_def open_write_def content_def read_lines_def
        sensor_logger_def init_fields_def sd_card_def)
  have b: "fst (write_record_with_buffer r l fs) \<noteq> Some InvalideRecordError"
    using flush_outcome [of "add_record_to_buffer r l" fs]
    by (auto simp: write_record_with_buffer_def Let_def)
  have i: "fst (write_record r l fs) \<noteq> Some InvalideRecordError"
    by (simp add: write_record_def split: option.splits)
  from c b i show ?thesis by simp
qed

text \<open>
  C4, buffer occupancy. From a logger whose buffer holds fewer records than
  \<open>buffer_size\<close> (a fresh logger with \<open>buffer_size \<ge> 1\<close> is one, last conjunct), at the
  boundary after every call of every sequence of buffered writes the buffer again holds
  fewer records than \<open>buffer_size\<close>, so never more, also when a flush raised. When the
  append makes the length reach \<open>buffer_size\<close> the call flushes and the buffer is empty
  when it ends;
  when it stays below, the call only appends.
\<close>

theorem buffer_occupancy_invariant:
  assumes "int (length (buffer l)) < buffer_size l"
  shows "(\<forall>(l', fs') \<in> set (boundaries rs l fs).
            int (length (buffer l')) < buffer_size l' \<and>
            int (length (buffer l')) \<le> buffer_size l \<and> buffer_size l' = buffer_size l)
       \<and> (int (length (buffer l)) + 1 = buffer_size l \<longrightarrow>
            write_record_with_buffer r l fs =
              write_buffer_to_file (l\<lparr>buffer := buffer l @ [r]\<rparr>) fs \<and>
            buffer (fst (snd (write_record_with_buffer r l fs))) = [])
       \<and> (int (length (buffer l)) + 1 < buffer_size l \<longrightarrow>
            write_record_with_buffer r l fs = (None, l\<lparr>buffer := buffer l @ [r]\<rparr>, fs))
       \<and> (1 \<le> bsize \<longrightarrow>
            int (length (buffer (init_fields fname mp bsize hdrs)))
              < buffer_size (init_fields fname mp bsize hdrs))"
proof (intro conjI)
  show "\<forall>(l', fs') \<in> set (boundaries rs l fs).
            int (length (buffer l')) < buffer_size l' \<and>
            int (length (buffer l')) \<le> buffer_size l \<and> buffer_size l' = buffer_size l"
    using boundaries_occupancy [OF assms, of rs fs] by fastforce
  show "int (length (buffer l)) + 1 = buffer_size l \<longrightarrow>
            write_record_with_buffer r l fs =
              write_buffer_to_file (l\<lparr>buffer := buffer l @ [r]\<rparr>) fs \<and>
            buffer (fst (snd (write_record_with_buffer r l fs))) = []"
    by (simp add: write_record_with_buffer_def buffer_full_def add_record_to_buffer_def
        flush_clears)
  show "int (length (buffer l)) + 1 < buffer_size l \<longrightarrow>
            write_record_with_buffer r l fs = (None, l\<lparr>buffer := buffer l @ [r]\<rparr>, fs)"
    by (simp add: write_record_with_buffer_def buffer_full_def add_record_to_buffer_def)
  show "1 \<le> bsize \<longrightarrow>
            int (length (buffer (init_fields fname mp bsize hdrs)))
              < buffer_size (init_fields fname mp bsize hdrs)"
    by (simp add: init_fields_def)
qed

theorem buffer_occupancy_invariant_witness:
  "buffer_size sensor_logger = 3
   \<and> length (boundaries [''a'', ''b'', ''c'', ''d''] sensor_logger sd_card) = 4
   \<and> list_all (\<lambda>(l', fs').
          int (length (buffer l')) < buffer_size l' \<and>
          int (length (buffer l')) \<le> buffer_size sensor_logger \<and>
          buffer_size l' = buffer_size sensor_logger)
        (boundaries [''a'', ''b'', ''c'', ''d''] sensor_logger sd_card)"
proof -
  have h: "int (length (buffer sensor_logger)) < buffer_size sensor_logger"
    by (simp add: sensor_logger_def init_fields_def)
  have s: "buffer_size sensor_logger = 3"
    by (simp add: sensor_logger_def init_fields_def)
  have "list_all (\<lambda>(l', fs').
          int (length (buffer l')) < buffer_size l' \<and>
          int (length (buffer l')) \<le> buffer_size sensor_logger \<and>
          buffer_size l' = buffer_size sensor_logger)
        (boundaries [''a'', ''b'', ''c'', ''d''] sensor_logger sd_card)"
    unfolding list_all_iff
    by (rule buffer_occupancy_invariant [OF h, THEN conjunct1])
  with s show ?thesis by (simp only: length_boundaries) simp
qed

section \<open>Construction\<close>

text \<open>
  C5, the header line. With the mount point present and the file's path not refusing the
  open, construction returns the logger, and it writes to the card if and only if header
  columns were supplied and the target path did not exist before: then the file holds
  exactly the columns joined by \<open>;\<close> and one newline, which is one line when no column
  holds a newline. Once the target exists, constructing a second logger over it, with any
  headers and buffer size, returns a logger and leaves the card unchanged.
\<close>

theorem header_written_once:
  assumes m: "os_stat fs mp" and ok: "mp @ ''/'' @ fname \<notin> faulty fs"
  shows
    "new_LoggerCSV fname mp bsize hdrs fs =
       (Inr (init_fields fname mp bsize hdrs),
        case hdrs of
          None \<Rightarrow> fs
        | Some hs \<Rightarrow>
            if os_stat fs (mp @ ''/'' @ fname) then fs
            else fs\<lparr>files := (files fs)(mp @ ''/'' @ fname \<mapsto> str_join '';'' hs @ ''\<newline>'')\<rparr>)
     \<and> (snd (new_LoggerCSV fname mp bsize hdrs fs) \<noteq> fs
          \<longleftrightarrow> hdrs \<noteq> None \<and> \<not> os_stat fs (mp @ ''/'' @ fname))
     \<and> ((\<forall>h\<in>set hs. CHR 0x0A \<notin> set h) \<longrightarrow>
          read_lines (str_join '';'' hs @ ''\<newline>'') = [str_join '';'' hs])
     \<and> (os_stat (snd (new_LoggerCSV fname mp bsize hdrs fs)) (mp @ ''/'' @ fname) \<longrightarrow>
          new_LoggerCSV fname mp bsize2 hdrs2 (snd (new_LoggerCSV fname mp bsize hdrs fs)) =
            (Inr (init_fields fname mp bsize2 hdrs2), snd (new_LoggerCSV fname mp bsize hdrs fs)))"
proof -
  let ?p = "mp @ ''/'' @ fname"
  let ?fs1 = "case hdrs of
          None \<Rightarrow> fs
        | Some hs \<Rightarrow>
            if os_stat fs ?p then fs
            else fs\<lparr>files := (files fs)(?p \<mapsto> str_join '';'' hs @ ''\<newline>'')\<rparr>"
  have r1: "new_LoggerCSV fname mp bsize hdrs fs = (Inr (init_fields fname mp bsize hdrs), ?fs1)"
    by (rule new_LoggerCSV_result [OF m ok])
  have neq: "\<not> os_stat fs ?p \<Longrightarrow> fs\<lparr>files := (files fs)(?p \<mapsto> d)\<rparr> \<noteq> fs" for d
  proof
    assume a: "\<not> os_stat fs ?p" and e: "fs\<lparr>files := (files fs)(?p \<mapsto> d)\<rparr> = fs"
    have "os_stat (fs\<lparr>files := (files fs)(?p \<mapsto> d)\<rparr>) ?p" by (rule os_stat_upd_self)
    with a e show False by simp
  qed
  have r2: "snd (new_LoggerCSV fname mp bsize hdrs fs) \<noteq> fs
          \<longleftrightarrow> hdrs \<noteq> None \<and> \<not> os_stat fs ?p"
    unfolding r1 using neq by (cases hdrs) auto
  have r3: "(\<forall>h\<in>set hs. CHR 0x0A \<notin> set h) \<longrightarrow>
          read_lines (str_join '';'' hs @ ''\<newline>'') = [str_join '';'' hs]"
  proof
    assume a: "\<forall>h\<in>set hs. CHR 0x0A \<notin> set h"
    have "CHR 0x0A \<notin> set (str_join '';'' hs)"
      using str_join_chars [of "'';''" hs] a by auto
    then show "read_lines (str_join '';'' hs @ ''\<newline>'') = [str_join '';'' hs]"
      by (rule read_lines_single)
  qed
  have m1: "os_stat ?fs1 mp"
    using m by (auto simp: os_stat_upd split: option.splits)
  have r4: "os_stat ?fs1 ?p \<longrightarrow>
          new_LoggerCSV fname mp bsize2 hdrs2 ?fs1 = (Inr (init_fields fname mp bsize2 hdrs2), ?fs1)"
    using new_LoggerCSV_existing [OF m1] by blast
  show ?thesis
    using r1 r2 r3 r4 by (simp only: snd_conv) 
qed

theorem header_written_once_witness:
  "new_LoggerCSV ''sensor.csv'' ''sd'' 3 (Some [''date'', ''value'']) sd_card =
     (Inr sensor_logger, sd_card\<lparr>files := [''sd/sensor.csv'' \<mapsto> ''date;value\<newline>'']\<rparr>)
   \<and> read_lines ''date;value\<newline>'' = [''date;value'']
   \<and> new_LoggerCSV ''sensor.csv'' ''sd'' 60 (Some [''time''])
         (sd_card\<lparr>files := [''sd/sensor.csv'' \<mapsto> ''date;value\<newline>'']\<rparr>) =
       (Inr (init_fields ''sensor.csv'' ''sd'' 60 (Some [''time''])),
        sd_card\<lparr>files := [''sd/sensor.csv'' \<mapsto> ''date;value\<newline>'']\<rparr>)"
proof -
  have h1: "os_stat sd_card ''sd''"
    by (simp add: os_stat_def sd_card_def)
  have h2: "''sd'' @ ''/'' @ ''sensor.csv'' \<notin> faulty sd_card"
    by (simp add: sd_card_def)
  have n: "\<not> os_stat sd_card ''sd/sensor.csv''"
    by (simp add: os_stat_def sd_card_def)
  have e: "os_stat (sd_card\<lparr>files := [''sd/sensor.csv'' \<mapsto> ''date;value\<newline>'']\<rparr>) ''sd/sensor.csv''"
    by (simp add: os_stat_def sd_card_def)
  have f: "files sd_card = Map.empty"
    by (simp add: sd_card_def)
  note t = header_written_once [OF h1 h2, of 3 "Some [''date'', ''value'']" "[''date'', ''value'']"
        60 "Some [''time'']"]
  have c1: "new_LoggerCSV ''sensor.csv'' ''sd'' 3 (Some [''date'', ''value'']) sd_card =
     (Inr sensor_logger, sd_card\<lparr>files := [''sd/sensor.csv'' \<mapsto> ''date;value\<newline>'']\<rparr>)"
    using t [THEN conjunct1] n by (simp add: sensor_logger_def f)
  have c3: "read_lines ''date;value\<newline>'' = [''date;value'']"
    using t [THEN conjunct2, THEN conjunct2, THEN conjunct1] by simp
  have c4: "new_LoggerCSV ''sensor.csv'' ''sd'' 60 (Some [''time''])
         (sd_card\<lparr>files := [''sd/sensor.csv'' \<mapsto> ''date;value\<newline>'']\<rparr>) =
       (Inr (init_fields ''sensor.csv'' ''sd'' 60 (Some [''time''])),
        sd_card\<lparr>files := [''sd/sensor.csv'' \<mapsto> ''date;value\<newline>'']\<rparr>)"
    using t [THEN conjunct2, THEN conjunct2, THEN conjunct2] e unfolding c1 snd_conv by simp
  show ?thesis using c1 c3 c4 by simp
qed

text \<open>
  C6, the mount check. When \<^verbatim>\<open>os.stat\<close> fails on the mount point, construction raises
  \<^verbatim>\<open>SDNotMountedError\<close> and the card is unchanged: no file was created or written, also
  when headers were supplied and the target does not exist. No operation of the logger
  changes the set of directories: it never mounts anything.
\<close>

theorem mount_check_first:
  "(\<not> os_stat fs mp \<longrightarrow>
      new_LoggerCSV fname mp bsize hdrs fs = (Inl SDNotMountedError, fs))
   \<and> dirs (snd (new_LoggerCSV fname mp bsize hdrs fs)) = dirs fs
   \<and> dirs (snd (snd (write_record_with_buffer r l fs))) = dirs fs
   \<and> dirs (snd (snd (write_record r l fs))) = dirs fs
   \<and> dirs (snd (snd (del_LoggerCSV l fs))) = dirs fs"
proof (intro conjI)
  show "\<not> os_stat fs mp \<longrightarrow>
      new_LoggerCSV fname mp bsize hdrs fs = (Inl SDNotMountedError, fs)"
    by (simp add: new_LoggerCSV_def post_init_def verify_sd_mounted_def init_fields_def)
  show "dirs (snd (new_LoggerCSV fname mp bsize hdrs fs)) = dirs fs"
    by (rule new_dirs)
  show "dirs (snd (snd (write_record_with_buffer r l fs))) = dirs fs"
    by (simp add: write_record_with_buffer_def Let_def flush_dirs)
  show "dirs (snd (snd (write_record r l fs))) = dirs fs"
    by (rule write_record_dirs)
  show "dirs (snd (snd (del_LoggerCSV l fs))) = dirs fs"
    by (simp add: del_LoggerCSV_def flush_dirs)
qed

theorem mount_check_first_witness:
  "new_LoggerCSV ''sensor.csv'' ''sd'' 3 (Some [''date'', ''value''])
     \<lparr>files = Map.empty, dirs = {}, faulty = {}\<rparr> =
   (Inl SDNotMountedError, \<lparr>files = Map.empty, dirs = {}, faulty = {}\<rparr>)"
proof -
  have h: "\<not> os_stat \<lparr>files = Map.empty, dirs = {}, faulty = {}\<rparr> ''sd''"
    by (simp add: os_stat_def)
  from mount_check_first [THEN conjunct1, rule_format, OF h] show ?thesis .
qed

section \<open>Immediate writes, close and edge cases\<close>

text \<open>
  C7, the immediate write. \<^verbatim>\<open>write_record\<close> never changes the logger, so the pending
  records stay as they are. When the open succeeds the target file gets the record and one
  newline appended to what it holds (one line for a record without a newline); when the
  open fails, \<^verbatim>\<open>OSError\<close> is raised and nothing has changed.
\<close>

theorem immediate_write_bypasses_buffer:
  "fst (snd (write_record r l fs)) = l
   \<and> (writable fs (file_path l) \<longrightarrow>
        write_record r l fs =
          (None, l, fs\<lparr>files := (files fs)(file_path l \<mapsto> content fs (file_path l) @ r @ ''\<newline>'')\<rparr>))
   \<and> (CHR 0x0A \<notin> set r \<longrightarrow> read_lines (r @ ''\<newline>'') = [r])
   \<and> (\<not> writable fs (file_path l) \<longrightarrow> write_record r l fs = (Some OSError, l, fs))"
proof (intro conjI)
  show "fst (snd (write_record r l fs)) = l"
    by (simp add: write_record_def split: option.splits)
  show "writable fs (file_path l) \<longrightarrow>
        write_record r l fs =
          (None, l, fs\<lparr>files := (files fs)(file_path l \<mapsto> content fs (file_path l) @ r @ ''\<newline>'')\<rparr>)"
    by (simp add: write_record_def open_write_writable)
  show "CHR 0x0A \<notin> set r \<longrightarrow> read_lines (r @ ''\<newline>'') = [r]"
    by (simp add: read_lines_single)
  show "\<not> writable fs (file_path l) \<longrightarrow> write_record r l fs = (Some OSError, l, fs)"
    by (simp add: write_record_def open_write_unwritable)
qed

theorem immediate_write_bypasses_buffer_witness:
  "write_record ''record written to file directly''
      (sensor_logger\<lparr>buffer := [''record buffered'']\<rparr>) sd_card =
     (None, sensor_logger\<lparr>buffer := [''record buffered'']\<rparr>,
      sd_card\<lparr>files := [''sd/sensor.csv'' \<mapsto> ''record written to file directly\<newline>'']\<rparr>)
   \<and> read_lines ''record written to file directly\<newline>'' = [''record written to file directly'']"
proof -
  let ?l = "sensor_logger\<lparr>buffer := [''record buffered'']\<rparr>"
  have p: "file_path ?l = ''sd/sensor.csv''"
    by (simp add: sensor_logger_def init_fields_def)
  have w: "writable sd_card (file_path ?l)"
    unfolding p by (simp add: writable_def sd_card_def)
  have c: "content sd_card ''sd/sensor.csv'' = []" and f: "files sd_card = Map.empty"
    by (simp_all add: content_def sd_card_def)
  have n: "CHR 0x0A \<notin> set ''record written to file directly''"
    by simp
  note t = immediate_write_bypasses_buffer [of "''record written to file directly''" ?l sd_card]
  have a: "write_record ''record written to file directly'' ?l sd_card =
     (None, ?l, sd_card\<lparr>files := [''sd/sensor.csv'' \<mapsto> ''record written to file directly\<newline>'']\<rparr>)"
    using t [THEN conjunct2, THEN conjunct1, rule_format, OF w] unfolding p c f by simp
  have b: "read_lines ''record written to file directly\<newline>'' = [''record written to file directly'']"
    using t [THEN conjunct2, THEN conjunct2, THEN conjunct1, rule_format, OF n] by simp
  from a b show ?thesis by (rule conjI)
qed

text \<open>
  C8, close. \<^verbatim>\<open>__del__\<close> with pending records, on a card that accepts the write, appends
  exactly those records, one per line and in order, and empties the buffer (for any
  number of pending records, in particular fewer than \<open>buffer_size\<close>). With an empty
  buffer it returns without touching the card. After any \<^verbatim>\<open>__del__\<close> the buffer is
  empty, so a second one changes nothing.
\<close>

theorem close_flushes_pending:
  "(buffer l \<noteq> [] \<and> writable fs (file_path l) \<longrightarrow>
      del_LoggerCSV l fs =
        (None, l\<lparr>buffer := []\<rparr>,
         fs\<lparr>files := (files fs)(file_path l \<mapsto>
               content fs (file_path l) @ lines_text (buffer l))\<rparr>))
   \<and> (buffer l = [] \<longrightarrow> del_LoggerCSV l fs = (None, l, fs))
   \<and> (case del_LoggerCSV l fs of
         (e, l', fs') \<Rightarrow> buffer l' = [] \<and> del_LoggerCSV l' fs' = (None, l', fs'))"
proof (intro conjI)
  show "buffer l \<noteq> [] \<and> writable fs (file_path l) \<longrightarrow>
      del_LoggerCSV l fs =
        (None, l\<lparr>buffer := []\<rparr>,
         fs\<lparr>files := (files fs)(file_path l \<mapsto>
               content fs (file_path l) @ lines_text (buffer l))\<rparr>)"
    by (simp add: del_LoggerCSV_def flush_ok_lines)
  show "buffer l = [] \<longrightarrow> del_LoggerCSV l fs = (None, l, fs)"
    by (simp add: del_LoggerCSV_def)
  obtain e l' fs' where d: "del_LoggerCSV l fs = (e, l', fs')"
    by (cases "del_LoggerCSV l fs") auto
  have "buffer l' = []"
  proof (cases "buffer l = []")
    case True
    then show ?thesis using d by (simp add: del_LoggerCSV_def)
  next
    case False
    then have "l' = fst (snd (write_buffer_to_file l fs))"
      using d by (simp add: del_LoggerCSV_def)
    then show ?thesis by (simp add: flush_clears)
  qed
  then show "case del_LoggerCSV l fs of
         (e, l', fs') \<Rightarrow> buffer l' = [] \<and> del_LoggerCSV l' fs' = (None, l', fs')"
    unfolding d by (simp add: del_LoggerCSV_def)
qed

theorem close_flushes_pending_witness:
  "del_LoggerCSV (sensor_logger\<lparr>buffer := [''a'', ''b'']\<rparr>) sd_card =
     (None, sensor_logger, sd_card\<lparr>files := [''sd/sensor.csv'' \<mapsto> ''a\<newline>b\<newline>'']\<rparr>)
   \<and> del_LoggerCSV sensor_logger (sd_card\<lparr>files := [''sd/sensor.csv'' \<mapsto> ''a\<newline>b\<newline>'']\<rparr>) =
     (None, sensor_logger, sd_card\<lparr>files := [''sd/sensor.csv'' \<mapsto> ''a\<newline>b\<newline>'']\<rparr>)"
proof -
  let ?l = "sensor_logger\<lparr>buffer := [''a'', ''b'']\<rparr>"
  let ?fs = "sd_card\<lparr>files := [''sd/sensor.csv'' \<mapsto> ''a\<newline>b\<newline>'']\<rparr>"
  have p: "file_path ?l = ''sd/sensor.csv''"
    by (simp add: sensor_logger_def init_fields_def)
  have h: "buffer ?l \<noteq> [] \<and> writable sd_card (file_path ?l)"
    unfolding p by (simp add: writable_def sd_card_def)
  have c: "content sd_card ''sd/sensor.csv'' = []" and f: "files sd_card = Map.empty"
    by (simp_all add: content_def sd_card_def)
  have s: "?l\<lparr>buffer := []\<rparr> = sensor_logger"
    by (simp add: sensor_logger_def init_fields_def)
  have a: "del_LoggerCSV ?l sd_card = (None, sensor_logger, ?fs)"
    using close_flushes_pending [of ?l sd_card, THEN conjunct1, rule_format, OF h]
    unfolding p c f s by (simp add: lines_text_def)
  have e: "buffer sensor_logger = []"
    by (simp add: sensor_logger_def init_fields_def)
  have b: "del_LoggerCSV sensor_logger ?fs = (None, sensor_logger, ?fs)"
    using close_flushes_pending [of sensor_logger ?fs, THEN conjunct2, THEN conjunct1, rule_format, OF e] .
  from a b show ?thesis by (rule conjI)
qed

text \<open>
  C9, the flush of an empty buffer. \<^verbatim>\<open>"\n".join([]) + "\n"\<close> is \<^verbatim>\<open>"\n"\<close>: called with an
  empty buffer, \<^verbatim>\<open>_write_buffer_to_file\<close> appends that single newline, one blank line for
  a reader, and the buffer stays empty.
\<close>

theorem flush_of_empty_buffer:
  assumes e: "buffer l = []" and w: "writable fs (file_path l)"
  shows "serialize_buffer l = (''\<newline>'', l)
   \<and> write_buffer_to_file l fs =
       (None, l, fs\<lparr>files := (files fs)(file_path l \<mapsto> content fs (file_path l) @ ''\<newline>'')\<rparr>)
   \<and> read_lines ''\<newline>'' = [[]]"
proof (intro conjI)
  show "serialize_buffer l = (''\<newline>'', l)"
    using e by (simp add: serialize_buffer_def)
  show "write_buffer_to_file l fs =
       (None, l, fs\<lparr>files := (files fs)(file_path l \<mapsto> content fs (file_path l) @ ''\<newline>'')\<rparr>)"
    using e flush_ok [OF w] by simp
  show "read_lines ''\<newline>'' = [[]]"
    by (simp add: read_lines_def)
qed

theorem flush_of_empty_buffer_witness:
  "write_buffer_to_file sensor_logger sd_card =
       (None, sensor_logger, sd_card\<lparr>files := [''sd/sensor.csv'' \<mapsto> ''\<newline>'']\<rparr>)"
proof -
  have p: "file_path sensor_logger = ''sd/sensor.csv''"
    by (simp add: sensor_logger_def init_fields_def)
  have e: "buffer sensor_logger = []"
    by (simp add: sensor_logger_def init_fields_def)
  have w: "writable sd_card (file_path sensor_logger)"
    unfolding p by (simp add: writable_def sd_card_def)
  have c: "content sd_card ''sd/sensor.csv'' = []" and f: "files sd_card = Map.empty"
    by (simp_all add: content_def sd_card_def)
  show ?thesis
    using flush_of_empty_buffer [OF e w, THEN conjunct2, THEN conjunct1]
    unfolding p c f by simp
qed

text \<open>
  C10, a buffer size of zero or less. \<^verbatim>\<open>__init__\<close> stores any \<open>buffer_size\<close>: with the
  mount point present and the target's path not refusing the open, construction returns
  the logger. For a logger with \<open>buffer_size \<le> 0\<close> the buffer is full right after every
  append, every buffered write is a flush of the buffer with the new record, and the
  buffer is empty when the call ends. On a card that accepts the writes the record is in
  the file after the call, and a sequence of buffered writes appends all its records.
\<close>

theorem nonpositive_capacity_flushes_every_call:
  assumes np: "buffer_size l \<le> 0"
  shows
   "(bsize \<le> 0 \<and> os_stat fs0 mp \<and> mp @ ''/'' @ fname \<notin> faulty fs0 \<longrightarrow>
       fst (new_LoggerCSV fname mp bsize hdrs fs0) = Inr (init_fields fname mp bsize hdrs) \<and>
       buffer_size (init_fields fname mp bsize hdrs) = bsize)
    \<and> buffer_full (add_record_to_buffer r l)
    \<and> write_record_with_buffer r l fs = write_buffer_to_file (add_record_to_buffer r l) fs
    \<and> buffer (fst (snd (write_record_with_buffer r l fs))) = []
    \<and> (writable fs (file_path l) \<longrightarrow>
         write_record_with_buffer r l fs =
           (None, l\<lparr>buffer := []\<rparr>,
            fs\<lparr>files := (files fs)(file_path l \<mapsto>
                  content fs (file_path l) @ lines_text (buffer l @ [r]))\<rparr>))
    \<and> (writable fs (file_path l) \<and> buffer l = [] \<longrightarrow>
         (\<exists>fs'. write_all rs l fs = (None, l, fs') \<and>
            content fs' (file_path l) = content fs (file_path l) @ lines_text rs))"
proof (intro conjI)
  show "bsize \<le> 0 \<and> os_stat fs0 mp \<and> mp @ ''/'' @ fname \<notin> faulty fs0 \<longrightarrow>
       fst (new_LoggerCSV fname mp bsize hdrs fs0) = Inr (init_fields fname mp bsize hdrs) \<and>
       buffer_size (init_fields fname mp bsize hdrs) = bsize"
    by (simp add: new_LoggerCSV_result init_fields_def)
  show "buffer_full (add_record_to_buffer r l)"
    using np by (simp add: buffer_full_def add_record_to_buffer_def)
  show "write_record_with_buffer r l fs = write_buffer_to_file (add_record_to_buffer r l) fs"
    by (rule unbuffered_step [OF np])
  show "buffer (fst (snd (write_record_with_buffer r l fs))) = []"
    by (simp add: unbuffered_step [OF np] flush_clears)
  show "writable fs (file_path l) \<longrightarrow>
         write_record_with_buffer r l fs =
           (None, l\<lparr>buffer := []\<rparr>,
            fs\<lparr>files := (files fs)(file_path l \<mapsto>
                  content fs (file_path l) @ lines_text (buffer l @ [r]))\<rparr>)"
    using unbuffered_step_ok [OF np] by blast
  show "writable fs (file_path l) \<and> buffer l = [] \<longrightarrow>
         (\<exists>fs'. write_all rs l fs = (None, l, fs') \<and>
            content fs' (file_path l) = content fs (file_path l) @ lines_text rs)"
    using unbuffered_write_all [OF np] by blast
qed

theorem nonpositive_capacity_flushes_every_call_witness:
  "fst (new_LoggerCSV ''sensor.csv'' ''sd'' 0 None sd_card) =
     Inr (init_fields ''sensor.csv'' ''sd'' 0 None)
   \<and> write_record_with_buffer ''a'' (init_fields ''sensor.csv'' ''sd'' 0 None) sd_card =
       (None, init_fields ''sensor.csv'' ''sd'' 0 None,
        sd_card\<lparr>files := [''sd/sensor.csv'' \<mapsto> ''a\<newline>'']\<rparr>)"
proof -
  let ?l = "init_fields ''sensor.csv'' ''sd'' 0 None"
  have np: "buffer_size ?l \<le> 0"
    by (simp add: init_fields_def)
  have p: "file_path ?l = ''sd/sensor.csv''" and e: "?l\<lparr>buffer := []\<rparr> = ?l" and b: "buffer ?l = []"
    by (simp_all add: init_fields_def)
  have w: "writable sd_card (file_path ?l)"
    unfolding p by (simp add: writable_def sd_card_def)
  have c: "content sd_card ''sd/sensor.csv'' = []" and f: "files sd_card = Map.empty"
    by (simp_all add: content_def sd_card_def)
  have h0: "(0::int) \<le> 0 \<and> os_stat sd_card ''sd'' \<and> ''sd'' @ ''/'' @ ''sensor.csv'' \<notin> faulty sd_card"
    by (simp add: os_stat_def sd_card_def)
  note t = nonpositive_capacity_flushes_every_call [OF np, of 0 sd_card "''sd''" "''sensor.csv''" None "''a''" sd_card]
  have a: "fst (new_LoggerCSV ''sensor.csv'' ''sd'' 0 None sd_card) = Inr ?l"
    using t [THEN conjunct1, rule_format, OF h0] by simp
  have d: "write_record_with_buffer ''a'' ?l sd_card =
       (None, ?l, sd_card\<lparr>files := [''sd/sensor.csv'' \<mapsto> ''a\<newline>'']\<rparr>)"
    using t [THEN conjunct2, THEN conjunct2, THEN conjunct2, THEN conjunct2, THEN conjunct1,
        rule_format, OF w]
    unfolding p e b c f by (simp add: lines_text_def)
  from a d show ?thesis by (rule conjI)
qed

end
